theory Spec2Isabelle
  imports Complex_Main "HOL-Library.AList" "HOL-Library.Multiset"
begin

section \<open>Configuration constants of remove-dead-domains.py\<close>

definition DNS_SERVERS :: "(string \<times> string) list" where
  "DNS_SERVERS =
     [(''8.8.8.8'', ''8.8.4.4''),
      (''208.67.222.222'', ''208.67.220.220''),
      (''84.200.69.80'', ''84.200.70.40''),
      (''209.244.0.3'', ''209.244.0.4''),
      (''8.26.56.26'', ''8.20.247.20'')]"

definition WEB_PORTS :: "nat list" where
  "WEB_PORTS = [80, 443]"

definition MAX_DNS_ATTEMPTS :: nat where
  "MAX_DNS_ATTEMPTS = 10"

definition BASE_DNS_TIMEOUT_S :: rat where
  "BASE_DNS_TIMEOUT_S = 3"

text \<open>
  \<open>errno.EHOSTUNREACH\<close> is a constant of the platform's C library; 113 is its value on
  Linux, as 111 and 110 are the values of \<open>ECONNREFUSED\<close> and \<open>ETIMEDOUT\<close>.
\<close>

definition EHOSTUNREACH :: int where
  "EHOSTUNREACH = 113"

definition ECONNREFUSED :: int where
  "ECONNREFUSED = 111"

definition ETIMEDOUT :: int where
  "ETIMEDOUT = 110"

section \<open>The environment: network replies and random draws\<close>

text \<open>
  What one \<open>resolver.query(domain, "A")\<close> awaited under \<open>asyncio.wait_for\<close> can end in,
  as far as \<open>dns_resolve\<close> tells the cases apart: \<open>asyncio.TimeoutError\<close>,
  \<open>aiodns.error.DNSError\<close>, or a response, of which only the \<open>host\<close> field of each
  record is read.
\<close>

datatype dns_reply = Timeout | DNSError | Response "string list"

text \<open>
  The exceptions the script can meet, by the classes its \<open>except\<close> clauses test with
  \<open>isinstance\<close>, under Python 3.11 and later. \<open>ConnectionRefusedError\<close> and
  \<open>TimeoutError\<close> are the instances of these two subclasses of \<open>OSError\<close>, the classes
  the first \<open>except\<close> clause of \<open>has_tcp_port_open\<close> names: since Python 3.11
  \<open>asyncio.TimeoutError\<close> is the built-in \<open>TimeoutError\<close>, so the time-out of
  \<open>asyncio.wait_for\<close> and a time-out reported by the kernel are both of this class.
  \<open>OSError\<close> is an instance of \<open>OSError\<close> that is of neither of the two classes, with
  its \<open>errno\<close> attribute (which may be \<open>None\<close>). \<open>OtherError\<close> stands for any
  exception that is not an \<open>OSError\<close>; \<open>StopIteration\<close> is what \<open>next\<close> raises on an
  exhausted iterator.
\<close>

datatype exn =
    ConnectionRefusedError
  | TimeoutError
  | OSError "int option"
  | OtherError string
  | StopIteration

text \<open>
  The exception Python raises for an error number of the operating system: an \<open>OSError\<close>
  built from an error number is an instance of the subclass the number maps to, so
  \<open>ECONNREFUSED\<close> comes as a \<open>ConnectionRefusedError\<close> and \<open>ETIMEDOUT\<close> as a
  \<open>TimeoutError\<close>; \<open>EHOSTUNREACH\<close> maps to no subclass.
\<close>

definition os_error :: "int \<Rightarrow> exn" where
  "os_error errno =
     (if errno = ECONNREFUSED then ConnectionRefusedError
      else if errno = ETIMEDOUT then TimeoutError
      else OSError (Some errno))"

datatype tcp_reply = Connected | Raises exn

text \<open>
  Every call into \<open>random\<close> and into the network is an oracle of the world the script runs
  in. Random draws are indexed by the position of the domain in the input (one
  \<open>dns_resolve_domain\<close> task per input line) and, below that, by the position of the server
  group in the shuffled list and by the attempt number. Network replies are keyed by what the
  call passes, and for DNS also by the attempt number, since the retry loop repeats one
  call.
\<close>

record world =
  rand_shuffle :: "nat \<Rightarrow> (string \<times> string) list"
  rand_choice :: "nat \<Rightarrow> nat \<Rightarrow> bool"
  rand_jitter :: "nat \<Rightarrow> nat \<Rightarrow> nat \<Rightarrow> int"
  dns_query :: "string \<Rightarrow> string \<Rightarrow> nat \<Rightarrow> rat \<Rightarrow> dns_reply"
  tcp_connect :: "string \<Rightarrow> nat \<Rightarrow> tcp_reply"


section \<open>dns_resolve\<close>

text \<open>
  The \<open>for attempt in range(1, MAX_DNS_ATTEMPTS + 1)\<close> loop. The first argument is the
  resolver bound to one domain and one server: attempt number and time-out to reply. The
  second gives the \<open>random.randint(-20, 20)\<close> drawn after the time-out of an attempt. The
  third counts the iterations left, the fourth is \<open>attempt\<close>, the fifth \<open>timeout\<close> (in
  seconds, kept exact), the last the number of queries issued so far. The result is the
  returned value and the number of queries issued. Running out of iterations is the
  \<open>else\<close> branch of the \<open>for\<close>.
\<close>

fun dns_attempts ::
  "(nat \<Rightarrow> rat \<Rightarrow> dns_reply) \<Rightarrow> (nat \<Rightarrow> int) \<Rightarrow> nat \<Rightarrow> nat \<Rightarrow> rat \<Rightarrow> nat \<Rightarrow> string option \<times> nat"
where
  "dns_attempts resolver jitter 0 attempt timeout queries = (None, queries)"
| "dns_attempts resolver jitter (Suc left) attempt timeout queries =
     (case resolver attempt timeout of
        Timeout \<Rightarrow>
          dns_attempts resolver jitter left (Suc attempt)
            (BASE_DNS_TIMEOUT_S + of_int (jitter attempt) / 100) (Suc queries)
      | DNSError \<Rightarrow> (None, Suc queries)
      | Response records \<Rightarrow>
          (case records of
             [] \<Rightarrow> (None, Suc queries)
           | host # _ \<Rightarrow> (Some host, Suc queries)))"

definition dns_resolve ::
  "(nat \<Rightarrow> rat \<Rightarrow> dns_reply) \<Rightarrow> (nat \<Rightarrow> int) \<Rightarrow> string option \<times> nat"
where
  "dns_resolve resolver jitter =
     dns_attempts resolver jitter MAX_DNS_ATTEMPTS 1 BASE_DNS_TIMEOUT_S 0"

text \<open>The time-out in force at a given attempt: the base value at the first attempt, the
  base value plus the last jitter afterwards.\<close>

definition timeout_at :: "(nat \<Rightarrow> int) \<Rightarrow> nat \<Rightarrow> rat" where
  "timeout_at jitter attempt =
     (if attempt \<le> 1 then BASE_DNS_TIMEOUT_S
      else BASE_DNS_TIMEOUT_S + of_int (jitter (attempt - 1)) / 100)"

section \<open>dns_resolve_domain\<close>

text \<open>
  Task \<open>i\<close> walks the shuffled server groups; for group \<open>k\<close> of that order it picks one
  of the two addresses (\<open>random.choice\<close>: \<open>False\<close> the first, \<open>True\<close> the second) and
  appends what \<open>dns_resolve\<close> returns. The semaphore and the progress bar do not enter the
  returned value.
\<close>

definition dns_resolve_domain :: "world \<Rightarrow> nat \<Rightarrow> string \<Rightarrow> string option list" where
  "dns_resolve_domain w i domain =
     map (\<lambda>(k, dns_server_ips).
            let dns_server_ip =
                  (if rand_choice w i k then snd dns_server_ips else fst dns_server_ips)
            in fst (dns_resolve (dns_query w domain dns_server_ip) (rand_jitter w i k)))
         (enumerate 0 (rand_shuffle w i))"

section \<open>has_tcp_port_open\<close>

text \<open>
  The \<open>try\<close> around \<open>asyncio.wait_for(asyncio.open_connection(ip, port), timeout=10)\<close>,
  clause by clause; \<open>Inl\<close> is the exception that leaves the function.
\<close>

definition has_tcp_port_open :: "(string \<Rightarrow> nat \<Rightarrow> tcp_reply) \<Rightarrow> string \<Rightarrow> nat \<Rightarrow> exn + bool" where
  "has_tcp_port_open conn ip port =
     (case conn ip port of
        Connected \<Rightarrow> Inr True
      | Raises e \<Rightarrow>
          (case e of
             ConnectionRefusedError \<Rightarrow> Inr False
           | TimeoutError \<Rightarrow> Inr False
           | OSError errno \<Rightarrow> if errno = Some EHOSTUNREACH then Inr False else Inl e
           | _ \<Rightarrow> Inl e))"

section \<open>The main block\<close>

text \<open>Python's truth value of an \<open>Optional[str]\<close>: \<open>None\<close> and the empty string are
  false.\<close>

fun truthy :: "string option \<Rightarrow> bool" where
  "truthy None = False"
| "truthy (Some s) = (s \<noteq> [])"

text \<open>
  One round of the loop over \<open>zip(domains, dns_check_futures)\<close>. The state is
  \<open>dead_domains\<close> (a set) and \<open>tcp_check_domain_ips\<close> (a dict: assigning to a key that is
  there replaces its value in place, a new key goes to the end).
\<close>

fun dns_step ::
  "string set \<times> (string \<times> string option list) list \<Rightarrow> string \<times> string option list
   \<Rightarrow> string set \<times> (string \<times> string option list) list"
where
  "dns_step (dead_domains, tcp_check_domain_ips) (domain, ips) =
     (if \<not> list_ex truthy ips then (insert domain dead_domains, tcp_check_domain_ips)
      else if \<not> list_all truthy ips
        then (dead_domains, AList.update domain ips tcp_check_domain_ips)
      else (dead_domains, tcp_check_domain_ips))"

definition classify_dns ::
  "string list \<Rightarrow> string option list list \<Rightarrow> string set \<times> (string \<times> string option list) list"
where
  "classify_dns domains results = foldl dns_step ({}, []) (zip domains results)"

text \<open>\<open>next(filter(None, ips))\<close>: the first true entry, \<open>StopIteration\<close> when there is
  none.\<close>

fun next_filter :: "string option list \<Rightarrow> exn + string" where
  "next_filter [] = Inl StopIteration"
| "next_filter (None # ips) = next_filter ips"
| "next_filter (Some ip # ips) = (if ip \<noteq> [] then Inr ip else next_filter ips)"

text \<open>
  The loop that creates the probes: for each item of \<open>tcp_check_domain_ips\<close>, in the order
  of the dict, one call \<open>has_tcp_port_open(ip, port)\<close> per port, kept under the domain. The
  keys of a dict are distinct, so each domain gets one list.
\<close>

fun schedule_tcp_checks ::
  "(string \<times> string option list) list \<Rightarrow> exn + (string \<times> (string \<times> nat) list) list"
where
  "schedule_tcp_checks [] = Inr []"
| "schedule_tcp_checks ((domain, ips) # rest) =
     (case next_filter ips of
        Inl e \<Rightarrow> Inl e
      | Inr ip \<Rightarrow>
          (case schedule_tcp_checks rest of
             Inl e \<Rightarrow> Inl e
           | Inr calls \<Rightarrow> Inr ((domain, map (\<lambda>port. (ip, port)) WEB_PORTS) # calls)))"

text \<open>The futures once the event loop has run them: each call with its outcome.\<close>

definition run_tcp_checks ::
  "(string \<Rightarrow> nat \<Rightarrow> tcp_reply) \<Rightarrow> (string \<times> (string \<times> nat) list) list
   \<Rightarrow> (string \<times> (exn + bool) list) list"
where
  "run_tcp_checks conn calls =
     map (\<lambda>(domain, cs). (domain, map (\<lambda>(ip, port). has_tcp_port_open conn ip port) cs)) calls"

text \<open>
  Reading a list of futures one after the other, as the \<open>future.result()\<close> calls of the
  last loop do: the results in order, or the exception of the first future that raised.
\<close>

fun gather :: "(exn + 'a) list \<Rightarrow> exn + 'a list" where
  "gather [] = Inr []"
| "gather (Inl e # rest) = Inl e"
| "gather (Inr x # rest) =
     (case gather rest of Inl e \<Rightarrow> Inl e | Inr xs \<Rightarrow> Inr (x # xs))"

text \<open>
  \<open>asyncio.gather\<close> under \<open>run_until_complete\<close>: the results in order when every future
  returns; otherwise the exception that is raised first in time. Which future raises first
  is decided by the network and the scheduler, not by anything the script computes, so the
  model keeps the exceptions of all futures: \<open>Inl E\<close> says that the wait ends with one of
  the exceptions in \<open>E\<close>.
\<close>

definition asyncio_gather :: "(exn + 'a) list \<Rightarrow> exn set + 'a list" where
  "asyncio_gather futures =
     (case gather futures of
        Inl e \<Rightarrow> Inl (set (concat (map (\<lambda>f. case f of Inl e' \<Rightarrow> [e'] | Inr x \<Rightarrow> []) futures)))
      | Inr results \<Rightarrow> Inr results)"

text \<open>The loop over \<open>tcp_check_futures.items()\<close>.\<close>

fun classify_tcp :: "string set \<Rightarrow> (string \<times> (exn + bool) list) list \<Rightarrow> exn + string set" where
  "classify_tcp dead_domains [] = Inr dead_domains"
| "classify_tcp dead_domains ((domain, futures) # rest) =
     (case gather futures of
        Inl e \<Rightarrow> Inl e
      | Inr status \<Rightarrow>
          classify_tcp
            (if \<not> list_ex (\<lambda>b. b) status then insert domain dead_domains else dead_domains)
            rest)"

text \<open>Phase 1: one resolution task per input line, then the classification.\<close>

definition dns_phase :: "world \<Rightarrow> string list \<Rightarrow> string set \<times> (string \<times> string option list) list" where
  "dns_phase w domains =
     classify_dns domains (map (\<lambda>(i, domain). dns_resolve_domain w i domain) (enumerate 0 domains))"

text \<open>Phase 2, from the state phase 1 leaves: the final \<open>dead_domains\<close>, or the
  exceptions one of which ends the script.\<close>

definition tcp_phase ::
  "(string \<Rightarrow> nat \<Rightarrow> tcp_reply) \<Rightarrow> string set \<times> (string \<times> string option list) list
   \<Rightarrow> exn set + string set"
where
  "tcp_phase conn st =
     (case schedule_tcp_checks (snd st) of
        Inl e \<Rightarrow> Inl {e}
      | Inr calls \<Rightarrow>
          (let tcp_check_futures = run_tcp_checks conn calls in
           case asyncio_gather (concat (map snd tcp_check_futures)) of
             Inl es \<Rightarrow> Inl es
           | Inr _ \<Rightarrow>
               (case classify_tcp (fst st) tcp_check_futures of
                  Inl e \<Rightarrow> Inl {e}
                | Inr dead_domains \<Rightarrow> Inr dead_domains)))"

definition check_domains :: "world \<Rightarrow> string list \<Rightarrow> exn set + string set" where
  "check_domains w domains = tcp_phase (tcp_connect w) (dns_phase w domains)"

text \<open>
  \<open>str.rstrip()\<close> drops trailing white space. On the characters below 256 Python counts
  as white space the codes 9 to 13, 28 to 32, 133 and 160.
\<close>

definition isspace :: "char \<Rightarrow> bool" where
  "isspace c \<longleftrightarrow>
     (let n = (of_char c :: nat) in (9 \<le> n \<and> n \<le> 13) \<or> (28 \<le> n \<and> n \<le> 32) \<or> n = 133 \<or> n = 160)"

definition rstrip :: "string \<Rightarrow> string" where
  "rstrip s = rev (dropWhile isspace (rev s))"

text \<open>
  The whole script on a list file, given as the lines \<open>readlines()\<close> returns. The result
  is the content of the file when the script ends, with either the exceptions one of which
  ended it or the number it prints as removed. The file is opened for writing only after both
  phases. The raising of the limit on open files and the progress bars have no part in
  either and are left out.
\<close>

definition main :: "world \<Rightarrow> string list \<Rightarrow> string list \<times> (exn set + nat)" where
  "main w list_file =
     (let domains = map rstrip list_file in
      case check_domains w domains of
        Inl e \<Rightarrow> (list_file, Inl e)
      | Inr dead_domains \<Rightarrow>
          (map (\<lambda>domain. domain @ [CHR 0x0A]) (filter (\<lambda>domain. domain \<notin> dead_domains) domains),
           Inr (card dead_domains)))"

section \<open>Notions the properties below are stated with\<close>

text \<open>
  The domains for which the last loop reaches \<open>dead_domains.add(domain)\<close>: those whose
  probes all returned and none returned true.
\<close>

definition tcp_dead :: "(string \<times> (exn + bool) list) list \<Rightarrow> string set" where
  "tcp_dead tcp_check_futures =
     set (map fst
       (filter (\<lambda>(domain, futures).
                  case gather futures of Inl e \<Rightarrow> False | Inr status \<Rightarrow> \<not> list_ex (\<lambda>b. b) status)
               tcp_check_futures))"







section \<open>Example worlds\<close>

text \<open>
  The scenario of the specification: \<open>a.test\<close> resolves on every server, \<open>b.test\<close> on
  none, \<open>c.test\<close> on two of the five groups with the address 203.0.113.5; port 80 is
  closed and port 443 is open.
\<close>

definition scenario_dns :: "string \<Rightarrow> string \<Rightarrow> nat \<Rightarrow> rat \<Rightarrow> dns_reply" where
  "scenario_dns domain server attempt timeout =
     (if domain = ''a.test'' then Response [''198.51.100.7'']
      else if domain = ''c.test''
              \<and> server \<in> {''8.8.8.8'', ''8.8.4.4'', ''84.200.69.80'', ''84.200.70.40''}
        then Response [''203.0.113.5'']
      else DNSError)"

definition scenario_tcp :: "string \<Rightarrow> nat \<Rightarrow> tcp_reply" where
  "scenario_tcp ip port = (if port = 443 then Connected else Raises ConnectionRefusedError)"

definition scenario :: world where
  "scenario =
     \<lparr>rand_shuffle = (\<lambda>i. DNS_SERVERS), rand_choice = (\<lambda>i k. False),
      rand_jitter = (\<lambda>i k attempt. 0), dns_query = scenario_dns, tcp_connect = scenario_tcp\<rparr>"

definition scenario_domains :: "string list" where
  "scenario_domains = [''a.test'', ''b.test'', ''c.test'']"

text \<open>The vectors the three domains get in that world.\<close>

definition scenario_results :: "string option list list" where
  "scenario_results =
     [[Some ''198.51.100.7'', Some ''198.51.100.7'', Some ''198.51.100.7'',
       Some ''198.51.100.7'', Some ''198.51.100.7''],
      [None, None, None, None, None],
      [Some ''203.0.113.5'', None, Some ''203.0.113.5'', None, None]]"

text \<open>The list file of the scenario, and one that names \<open>b.test\<close> on a second line,
  with trailing blanks.\<close>

definition scenario_file :: "string list" where
  "scenario_file = [''a.test'' @ [CHR 0x0A], ''b.test'' @ [CHR 0x0A], ''c.test'' @ [CHR 0x0A]]"

definition scenario_file_twice :: "string list" where
  "scenario_file_twice = scenario_file @ [''b.test  '' @ [CHR 0x0A]]"


text \<open>The scenario with a TCP side that fails with \<open>ENETUNREACH\<close> (101) on port 80.\<close>

definition scenario_fatal :: world where
  "scenario_fatal =
     scenario\<lparr>tcp_connect :=
       (\<lambda>ip port. if port = 80 then Raises (OSError (Some 101)) else Connected)\<rparr>"

text \<open>
  A deterministic network on which the draws decide. \<open>x.test\<close> resolves on the first
  address of each group and on no second address. \<open>y.test\<close> resolves to 203.0.113.5 at
  Google, to 203.0.113.9 at OpenDNS and nowhere else; only 203.0.113.5 accepts
  connections.
\<close>

definition split_dns :: "string \<Rightarrow> string \<Rightarrow> nat \<Rightarrow> rat \<Rightarrow> dns_reply" where
  "split_dns domain server attempt timeout =
     (if domain = ''x.test'' \<and> server \<in> fst ` set DNS_SERVERS then Response [''203.0.113.5'']
      else if domain = ''y.test'' \<and> server \<in> {''8.8.8.8'', ''8.8.4.4''}
        then Response [''203.0.113.5'']
      else if domain = ''y.test'' \<and> server \<in> {''208.67.222.222'', ''208.67.220.220''}
        then Response [''203.0.113.9'']
      else DNSError)"

definition split_tcp :: "string \<Rightarrow> nat \<Rightarrow> tcp_reply" where
  "split_tcp ip port =
     (if ip = ''203.0.113.5'' then Connected else Raises ConnectionRefusedError)"

definition split_first :: world where
  "split_first =
     \<lparr>rand_shuffle = (\<lambda>i. DNS_SERVERS), rand_choice = (\<lambda>i k. False),
      rand_jitter = (\<lambda>i k attempt. 0), dns_query = split_dns, tcp_connect = split_tcp\<rparr>"



text \<open>
  A list file that names \<open>x.test\<close> on two lines, and two ways the draws can fall on the
  network above. In the first the task of the first line asks the first address of every
  group and the task of the second line the second address of every group. In the second
  the task of the first line asks second addresses only, and the task of the second line
  asks the first address of its first group and second addresses after that.
\<close>

definition repeated_file :: "string list" where
  "repeated_file = [''x.test'' @ [CHR 0x0A], ''x.test'' @ [CHR 0x0A]]"

definition repeated_resolved :: world where
  "repeated_resolved = split_first\<lparr>rand_choice := (\<lambda>i k. i = 1)\<rparr>"

definition repeated_mixed :: world where
  "repeated_mixed = split_first\<lparr>rand_choice := (\<lambda>i k. i = 0 \<or> 0 < k)\<rparr>"

text \<open>The second of them on a network that refuses every connection.\<close>

definition repeated_closed :: world where
  "repeated_closed = repeated_mixed\<lparr>tcp_connect := (\<lambda>ip port. Raises ConnectionRefusedError)\<rparr>"

section \<open>The retry loop of dns_resolve\<close>

lemma timeout_at_Suc:
  "1 \<le> attempt \<Longrightarrow> timeout_at jitter (Suc attempt) = BASE_DNS_TIMEOUT_S + of_int (jitter attempt) / 100"
  by (simp add: timeout_at_def)

lemma dns_attempts_all_timeout:
  assumes "\<forall>a. attempt \<le> a \<and> a < attempt + left \<longrightarrow> resolver a (timeout_at jitter a) = Timeout"
    and "1 \<le> attempt" and "timeout = timeout_at jitter attempt"
  shows "dns_attempts resolver jitter left attempt timeout queries = (None, queries + left)"
  using assms
proof (induction left arbitrary: attempt timeout queries)
  case 0
  then show ?case by simp
next
  case (Suc left)
  have now: "resolver attempt timeout = Timeout"
    using Suc.prems by simp
  have "dns_attempts resolver jitter left (Suc attempt) (timeout_at jitter (Suc attempt)) (Suc queries)
        = (None, Suc queries + left)"
    by (rule Suc.IH) (use Suc.prems in auto)
  then show ?case
    using now Suc.prems(2) by (simp add: timeout_at_Suc)
qed

lemma dns_attempts_settle:
  assumes "\<forall>a. attempt \<le> a \<and> a < k \<longrightarrow> resolver a (timeout_at jitter a) = Timeout"
    and "resolver k (timeout_at jitter k) \<noteq> Timeout"
    and "attempt \<le> k" and "k < attempt + left"
    and "1 \<le> attempt" and "timeout = timeout_at jitter attempt"
  shows "dns_attempts resolver jitter left attempt timeout queries
         = dns_attempts resolver jitter (Suc 0) k (timeout_at jitter k) (queries + (k - attempt))"
  using assms
proof (induction left arbitrary: attempt timeout queries)
  case 0
  then show ?case by simp
next
  case (Suc left)
  show ?case
  proof (cases "attempt = k")
    case True
    with Suc.prems(2,6) show ?thesis
      by (cases "resolver k (timeout_at jitter k)") (simp_all split: list.splits)
  next
    case False
    with Suc.prems have lt: "attempt < k" by simp
    then have now: "resolver attempt timeout = Timeout"
      using Suc.prems by simp
    have eq: "Suc queries + (k - Suc attempt) = queries + (k - attempt)"
      using lt by simp
    have "dns_attempts resolver jitter (Suc left) attempt timeout queries
          = dns_attempts resolver jitter left (Suc attempt) (timeout_at jitter (Suc attempt)) (Suc queries)"
      using now Suc.prems(5) by (simp add: timeout_at_Suc)
    also have "\<dots> = dns_attempts resolver jitter (Suc 0) k (timeout_at jitter k) (Suc queries + (k - Suc attempt))"
      by (rule Suc.IH) (use Suc.prems lt in auto)
    finally show ?thesis
      unfolding eq .
  qed
qed

text \<open>
  Claim C5. A resolver that times out at every attempt is queried exactly
  \<open>MAX_DNS_ATTEMPTS\<close> times, which is 10, and \<open>dns_resolve\<close> then returns
  \<open>None\<close>. If the attempts before the \<open>k\<close>-th time out and the \<open>k\<close>-th does not,
  the \<open>k\<close>-th query is the last one: a DNS error gives \<open>None\<close>, a response without
  records gives \<open>None\<close>, and a response with records gives the host of the first
  record.
\<close>

theorem dns_resolve_contract:
  "((\<forall>a. 1 \<le> a \<and> a \<le> MAX_DNS_ATTEMPTS \<longrightarrow> resolver a (timeout_at jitter a) = Timeout)
      \<longrightarrow> dns_resolve resolver jitter = (None, MAX_DNS_ATTEMPTS) \<and> MAX_DNS_ATTEMPTS = 10)
   \<and> (1 \<le> k \<and> k \<le> MAX_DNS_ATTEMPTS
        \<and> (\<forall>a. 1 \<le> a \<and> a < k \<longrightarrow> resolver a (timeout_at jitter a) = Timeout)
      \<longrightarrow> (resolver k (timeout_at jitter k) = DNSError
             \<longrightarrow> dns_resolve resolver jitter = (None, k))
        \<and> (resolver k (timeout_at jitter k) = Response []
             \<longrightarrow> dns_resolve resolver jitter = (None, k))
        \<and> (\<forall>host others. resolver k (timeout_at jitter k) = Response (host # others)
             \<longrightarrow> dns_resolve resolver jitter = (Some host, k)))"
proof (intro conjI impI allI)
  assume "\<forall>a. 1 \<le> a \<and> a \<le> MAX_DNS_ATTEMPTS \<longrightarrow> resolver a (timeout_at jitter a) = Timeout"
  then have "\<forall>a. 1 \<le> a \<and> a < 1 + MAX_DNS_ATTEMPTS \<longrightarrow> resolver a (timeout_at jitter a) = Timeout"
    by simp
  then have "dns_attempts resolver jitter MAX_DNS_ATTEMPTS 1 BASE_DNS_TIMEOUT_S 0
             = (None, 0 + MAX_DNS_ATTEMPTS)"
    by (rule dns_attempts_all_timeout) (simp_all add: timeout_at_def)
  then show "dns_resolve resolver jitter = (None, MAX_DNS_ATTEMPTS)"
    by (simp add: dns_resolve_def)
next
  show "MAX_DNS_ATTEMPTS = 10" by (simp add: MAX_DNS_ATTEMPTS_def)
next
  assume h: "1 \<le> k \<and> k \<le> MAX_DNS_ATTEMPTS
        \<and> (\<forall>a. 1 \<le> a \<and> a < k \<longrightarrow> resolver a (timeout_at jitter a) = Timeout)"
  have settle: "dns_resolve resolver jitter
        = dns_attempts resolver jitter (Suc 0) k (timeout_at jitter k) (k - 1)"
    if "resolver k (timeout_at jitter k) \<noteq> Timeout"
  proof -
    have "dns_attempts resolver jitter MAX_DNS_ATTEMPTS 1 BASE_DNS_TIMEOUT_S 0
          = dns_attempts resolver jitter (Suc 0) k (timeout_at jitter k) (0 + (k - 1))"
      by (rule dns_attempts_settle) (use h that in \<open>simp_all add: timeout_at_def\<close>)
    then show ?thesis by (simp add: dns_resolve_def)
  qed
  {
    assume "resolver k (timeout_at jitter k) = DNSError"
    then show "dns_resolve resolver jitter = (None, k)"
      using settle h by simp
  next
    assume "resolver k (timeout_at jitter k) = Response []"
    then show "dns_resolve resolver jitter = (None, k)"
      using settle h by simp
  next
    fix host others
    assume "resolver k (timeout_at jitter k) = Response (host # others)"
    then show "dns_resolve resolver jitter = (Some host, k)"
      using settle h by simp
  }
qed

theorem dns_resolve_contract_witness:
  "dns_resolve (\<lambda>a t. Timeout) (\<lambda>a. 7) = (None, 10)
   \<and> dns_resolve (\<lambda>a t. if a < 3 then Timeout else DNSError) (\<lambda>a. - 20) = (None, 3)
   \<and> dns_resolve (\<lambda>a t. if a < 10 then Timeout else Response []) (\<lambda>a. 20) = (None, 10)
   \<and> dns_resolve (\<lambda>a t. Response [''203.0.113.5'', ''203.0.113.6'']) (\<lambda>a. 0)
       = (Some ''203.0.113.5'', 1)"
proof -
  have "dns_resolve (\<lambda>a t. Timeout) (\<lambda>a. 7) = (None, 10)"
    using dns_resolve_contract [of "\<lambda>a t. Timeout" "\<lambda>a. 7" 1]
    by (simp add: MAX_DNS_ATTEMPTS_def)
  moreover have "dns_resolve (\<lambda>a t. if a < 3 then Timeout else DNSError) (\<lambda>a. - 20) = (None, 3)"
    using dns_resolve_contract [of "\<lambda>a t. if a < 3 then Timeout else DNSError" "\<lambda>a. - 20" 3]
    by (simp add: MAX_DNS_ATTEMPTS_def)
  moreover have "dns_resolve (\<lambda>a t. if a < 10 then Timeout else Response []) (\<lambda>a. 20) = (None, 10)"
    using dns_resolve_contract [of "\<lambda>a t. if a < 10 then Timeout else Response []" "\<lambda>a. 20" 10]
    by (simp add: MAX_DNS_ATTEMPTS_def)
  moreover have "dns_resolve (\<lambda>a t. Response [''203.0.113.5'', ''203.0.113.6'']) (\<lambda>a. 0)
       = (Some ''203.0.113.5'', 1)"
    using dns_resolve_contract [of "\<lambda>a t. Response [''203.0.113.5'', ''203.0.113.6'']" "\<lambda>a. 0" 1]
    by (simp add: MAX_DNS_ATTEMPTS_def)
  ultimately show ?thesis by blast
qed

section \<open>Lemmas on the loops of the main block\<close>

subsection \<open>Waiting for futures\<close>

lemma gather_Inr_D: "gather xs = Inr ys \<Longrightarrow> xs = map Inr ys"
proof (induction xs arbitrary: ys rule: gather.induct)
  case 1
  then show ?case by simp
next
  case (2 e rest)
  then show ?case by simp
next
  case (3 x rest)
  from "3.prems" obtain zs where zs: "gather rest = Inr zs" "ys = x # zs"
    by (auto split: sum.splits)
  from "3.IH" [OF zs(1)] zs(2) show ?case by simp
qed

lemma gather_map_Inr: "gather (map Inr ys) = Inr ys"
  by (induction ys) simp_all

lemma gather_Inr_iff: "gather xs = Inr ys \<longleftrightarrow> xs = map Inr ys"
  using gather_Inr_D gather_map_Inr by blast

lemma gather_Inl_mem: "gather xs = Inl e \<Longrightarrow> Inl e \<in> set xs"
proof (induction xs)
  case Nil
  then show ?case by simp
next
  case (Cons x xs)
  then show ?case by (cases x) (auto split: sum.splits)
qed

lemma gather_mem_Inl: "Inl e \<in> set xs \<Longrightarrow> \<exists>e'. gather xs = Inl e'"
proof (induction xs)
  case Nil
  then show ?case by simp
next
  case (Cons x xs)
  then show ?case by (cases x) (auto split: sum.splits)
qed

lemma gather_total: "(\<exists>e. gather xs = Inl e) \<or> (\<exists>ys. gather xs = Inr ys)"
  by (cases "gather xs") auto

subsection \<open>The first true entry\<close>



lemma next_filter_any: "list_ex truthy ips \<Longrightarrow> \<exists>ip. next_filter ips = Inr ip"
  by (induction ips rule: next_filter.induct) auto


subsection \<open>The loop of phase 1\<close>

lemma update_mem: "(d, v) \<in> set (AList.update k x al) \<Longrightarrow> (d, v) = (k, x) \<or> (d, v) \<in> set al"
  by (induction al) (auto split: if_splits)

lemma update_mem_same: "(k, v) \<in> set (AList.update k x al) \<Longrightarrow> distinct (map fst al) \<Longrightarrow> v = x"
  by (induction al) (auto split: if_splits simp: rev_image_eqI)

lemma dns_loop_dead:
  "fst (foldl dns_step st ps) = fst st \<union> {d. \<exists>v. (d, v) \<in> set ps \<and> \<not> list_ex truthy v}"
proof (induction ps arbitrary: st)
  case Nil
  then show ?case by simp
next
  case (Cons p ps)
  obtain dead tcp where st: "st = (dead, tcp)" by (cases st)
  obtain d v where p: "p = (d, v)" by (cases p)
  show ?case
    unfolding foldl_Cons Cons.IH by (auto simp: st p)
qed

lemma dns_loop_keys:
  "fst ` set (snd (foldl dns_step st ps))
   = fst ` set (snd st) \<union> {d. \<exists>v. (d, v) \<in> set ps \<and> list_ex truthy v \<and> \<not> list_all truthy v}"
proof (induction ps arbitrary: st)
  case Nil
  then show ?case by simp
next
  case (Cons p ps)
  obtain dead tcp where st: "st = (dead, tcp)" by (cases st)
  obtain d v where p: "p = (d, v)" by (cases p)
  show ?case
    unfolding foldl_Cons Cons.IH by (auto simp: st p dom_update)
qed

lemma dns_loop_items:
  "(d, v) \<in> set (snd (foldl dns_step st ps)) \<Longrightarrow>
     (d, v) \<in> set (snd st) \<or> ((d, v) \<in> set ps \<and> list_ex truthy v \<and> \<not> list_all truthy v)"
proof (induction ps arbitrary: st)
  case Nil
  then show ?case by simp
next
  case (Cons p ps)
  obtain dead tcp where st: "st = (dead, tcp)" by (cases st)
  obtain d' v' where p: "p = (d', v')" by (cases p)
  from Cons.prems have "(d, v) \<in> set (snd (foldl dns_step (dns_step st p) ps))" by simp
  from Cons.IH [OF this] show ?case
    by (auto simp: st p split: if_splits dest: update_mem)
qed


lemma classify_dns_dead:
  "fst (classify_dns domains results)
   = {d. \<exists>v. (d, v) \<in> set (zip domains results) \<and> \<not> list_ex truthy v}"
  by (simp add: classify_dns_def dns_loop_dead)

lemma classify_dns_keys:
  "fst ` set (snd (classify_dns domains results))
   = {d. \<exists>v. (d, v) \<in> set (zip domains results) \<and> list_ex truthy v \<and> \<not> list_all truthy v}"
  by (simp add: classify_dns_def dns_loop_keys)

lemma classify_dns_items:
  "(d, v) \<in> set (snd (classify_dns domains results)) \<Longrightarrow>
     (d, v) \<in> set (zip domains results) \<and> list_ex truthy v \<and> \<not> list_all truthy v"
  using dns_loop_items [of d v "({}, [])" "zip domains results"]
  by (simp add: classify_dns_def)


subsection \<open>The probes\<close>

lemma schedule_keys: "schedule_tcp_checks tcp = Inr calls \<Longrightarrow> map fst calls = map fst tcp"
  by (induction tcp arbitrary: calls rule: schedule_tcp_checks.induct) (auto split: sum.splits)

lemma schedule_Cons:
  "schedule_tcp_checks ((domain, ips) # rest) = Inr calls \<Longrightarrow>
     \<exists>ip calls'. next_filter ips = Inr ip \<and> schedule_tcp_checks rest = Inr calls'
        \<and> calls = (domain, map (\<lambda>port. (ip, port)) WEB_PORTS) # calls'"
  by (auto split: sum.splits)

lemma schedule_calls:
  "schedule_tcp_checks tcp = Inr calls \<Longrightarrow> (d, cs) \<in> set calls \<Longrightarrow>
     \<exists>ips ip. (d, ips) \<in> set tcp \<and> next_filter ips = Inr ip \<and> cs = map (\<lambda>port. (ip, port)) WEB_PORTS"
proof (induction tcp arbitrary: calls)
  case Nil
  then show ?case by simp
next
  case (Cons p tcp)
  obtain domain ips where p: "p = (domain, ips)" by (cases p)
  from Cons.prems(1) obtain ip calls' where s: "next_filter ips = Inr ip"
    "schedule_tcp_checks tcp = Inr calls'"
    "calls = (domain, map (\<lambda>port. (ip, port)) WEB_PORTS) # calls'"
    unfolding p by (blast dest: schedule_Cons)
  from Cons.prems(2) s(3)
  consider "d = domain" "cs = map (\<lambda>port. (ip, port)) WEB_PORTS" | "(d, cs) \<in> set calls'"
    by auto
  then show ?case
  proof cases
    case 1
    with s(1) show ?thesis by (auto simp: p)
  next
    case 2
    from Cons.IH [OF s(2) this] show ?thesis by auto
  qed
qed


lemma schedule_succeeds:
  "\<forall>(d, ips)\<in>set tcp. list_ex truthy ips \<Longrightarrow> \<exists>calls. schedule_tcp_checks tcp = Inr calls"
proof (induction tcp rule: schedule_tcp_checks.induct)
  case 1
  then show ?case by simp
next
  case (2 domain ips rest)
  then obtain ip where "next_filter ips = Inr ip"
    using next_filter_any [of ips] by auto
  with 2 show ?case by (auto split: sum.splits)
qed

subsection \<open>The loop of phase 2\<close>

lemma classify_tcp_dead:
  "classify_tcp dead futs = Inr dead' \<Longrightarrow> dead' = dead \<union> tcp_dead futs"
proof (induction futs arbitrary: dead)
  case Nil
  then show ?case by (simp add: tcp_dead_def)
next
  case (Cons f futs)
  obtain d fs where f: "f = (d, fs)" by (cases f)
  from Cons.prems obtain status where g: "gather fs = Inr status"
    by (auto simp: f split: sum.splits)
  with Cons.prems have
    "classify_tcp (if \<not> list_ex (\<lambda>b. b) status then insert d dead else dead) futs = Inr dead'"
    by (simp add: f)
  from Cons.IH [OF this] show ?case
    using g by (auto simp: tcp_dead_def f)
qed

lemma classify_tcp_succeeds:
  "\<forall>(d, fs)\<in>set futs. \<exists>status. gather fs = Inr status \<Longrightarrow> \<exists>dead'. classify_tcp dead futs = Inr dead'"
proof (induction futs arbitrary: dead)
  case Nil
  then show ?case by simp
next
  case (Cons f futs)
  obtain d fs where f: "f = (d, fs)" by (cases f)
  from Cons.prems obtain status where g: "gather fs = Inr status"
    by (auto simp: f)
  from Cons.prems have "\<forall>(d, fs)\<in>set futs. \<exists>status. gather fs = Inr status" by simp
  from Cons.IH [OF this] show ?case
    using g by (simp add: f)
qed

lemma run_tcp_checks_mem:
  "fs \<in> set (map snd (run_tcp_checks conn calls))
   \<longleftrightarrow> (\<exists>d cs. (d, cs) \<in> set calls \<and> fs = map (\<lambda>(ip, port). has_tcp_port_open conn ip port) cs)"
  by (force simp: run_tcp_checks_def)

lemma run_tcp_checks_results:
  "r \<in> set (concat (map snd (run_tcp_checks conn calls)))
   \<longleftrightarrow> (\<exists>d cs ip port. (d, cs) \<in> set calls \<and> (ip, port) \<in> set cs
         \<and> r = has_tcp_port_open conn ip port)"
proof -
  have "r \<in> set (concat (map snd (run_tcp_checks conn calls)))
        \<longleftrightarrow> (\<exists>fs. fs \<in> set (map snd (run_tcp_checks conn calls)) \<and> r \<in> set fs)"
    by auto
  also have "\<dots> \<longleftrightarrow> (\<exists>d cs. (d, cs) \<in> set calls
                 \<and> r \<in> set (map (\<lambda>(ip, port). has_tcp_port_open conn ip port) cs))"
    unfolding run_tcp_checks_mem by blast
  also have "\<dots> \<longleftrightarrow> (\<exists>d cs ip port. (d, cs) \<in> set calls \<and> (ip, port) \<in> set cs
         \<and> r = has_tcp_port_open conn ip port)"
    by force
  finally show ?thesis .
qed

lemma gather_concat:
  "gather (concat xss) = Inr ys \<Longrightarrow> xs \<in> set xss \<Longrightarrow> \<exists>zs. gather xs = Inr zs"
proof -
  assume a: "gather (concat xss) = Inr ys" and b: "xs \<in> set xss"
  have "\<not> (\<exists>e. gather xs = Inl e)"
  proof
    assume "\<exists>e. gather xs = Inl e"
    then obtain e where "gather xs = Inl e" ..
    then have "Inl e \<in> set xs" by (rule gather_Inl_mem)
    with b have "Inl e \<in> set (concat xss)" by auto
    then obtain e' where "gather (concat xss) = Inl e'" using gather_mem_Inl by blast
    with a show False by simp
  qed
  then show ?thesis using gather_total [of xs] by blast
qed

lemma asyncio_gather_Inr: "asyncio_gather xs = Inr ys \<longleftrightarrow> gather xs = Inr ys"
  by (cases "gather xs") (simp_all add: asyncio_gather_def)

lemma asyncio_gather_Inl: "(\<exists>E. asyncio_gather xs = Inl E) \<longleftrightarrow> (\<exists>e. gather xs = Inl e)"
  by (cases "gather xs") (simp_all add: asyncio_gather_def)

lemma tcp_phase_Inr_iff:
  "tcp_phase conn st = Inr dead \<longleftrightarrow>
     (\<exists>calls rs. schedule_tcp_checks (snd st) = Inr calls
        \<and> gather (concat (map snd (run_tcp_checks conn calls))) = Inr rs
        \<and> classify_tcp (fst st) (run_tcp_checks conn calls) = Inr dead)"
proof (cases "schedule_tcp_checks (snd st)")
  case (Inl e)
  then show ?thesis by (simp add: tcp_phase_def)
next
  case (Inr calls)
  show ?thesis
  proof (cases "asyncio_gather (concat (map snd (run_tcp_checks conn calls)))")
    case (Inl E)
    then have "\<not> (\<exists>rs. gather (concat (map snd (run_tcp_checks conn calls))) = Inr rs)"
      unfolding asyncio_gather_Inr [symmetric] by simp
    with Inl Inr show ?thesis by (simp add: tcp_phase_def)
  next
    case g: (Inr rs)
    then have "gather (concat (map snd (run_tcp_checks conn calls))) = Inr rs"
      by (simp only: asyncio_gather_Inr)
    with g Inr show ?thesis
      by (cases "classify_tcp (fst st) (run_tcp_checks conn calls)") (simp_all add: tcp_phase_def)
  qed
qed

text \<open>What a run of phase 2 that returns has done.\<close>

lemma tcp_phase_Inr:
  assumes "tcp_phase conn st = Inr dead"
  obtains calls where "schedule_tcp_checks (snd st) = Inr calls"
    and "dead = fst st \<union> tcp_dead (run_tcp_checks conn calls)"
    and "\<forall>(d, cs)\<in>set calls. \<forall>(ip, port)\<in>set cs. \<exists>b. has_tcp_port_open conn ip port = Inr b"
proof -
  from assms obtain calls rs where c: "schedule_tcp_checks (snd st) = Inr calls"
    and g: "gather (concat (map snd (run_tcp_checks conn calls))) = Inr rs"
    and ct: "classify_tcp (fst st) (run_tcp_checks conn calls) = Inr dead"
    unfolding tcp_phase_Inr_iff by blast
  have "\<exists>b. has_tcp_port_open conn ip port = Inr b"
    if "(d, cs) \<in> set calls" "(ip, port) \<in> set cs" for d cs ip port
  proof -
    from that have "has_tcp_port_open conn ip port
                      \<in> set (concat (map snd (run_tcp_checks conn calls)))"
      unfolding run_tcp_checks_results by blast
    then show ?thesis
      unfolding gather_Inr_D [OF g] by auto
  qed
  then have "\<forall>(d, cs)\<in>set calls. \<forall>(ip, port)\<in>set cs. \<exists>b. has_tcp_port_open conn ip port = Inr b"
    by blast
  with c classify_tcp_dead [OF ct] that show thesis by blast
qed

text \<open>A probe that raises ends phase 2 with an exception; and phase 2 ends so only then.\<close>

lemma tcp_phase_Inl_iff:
  assumes "schedule_tcp_checks (snd st) = Inr calls"
  shows "(\<exists>e. tcp_phase conn st = Inl e)
         \<longleftrightarrow> (\<exists>d cs ip port e. (d, cs) \<in> set calls \<and> (ip, port) \<in> set cs
                  \<and> has_tcp_port_open conn ip port = Inl e)"
proof
  assume "\<exists>e. tcp_phase conn st = Inl e"
  then have no: "\<not> (\<exists>dead. tcp_phase conn st = Inr dead)" by auto
  have "\<exists>e'. gather (concat (map snd (run_tcp_checks conn calls))) = Inl e'"
  proof (rule ccontr)
    assume "\<not> ?thesis"
    then obtain rs where g: "gather (concat (map snd (run_tcp_checks conn calls))) = Inr rs"
      using gather_total by blast
    have "\<forall>(d, fs)\<in>set (run_tcp_checks conn calls). \<exists>status. gather fs = Inr status"
      using gather_concat [OF g] by force
    from classify_tcp_succeeds [OF this] obtain dead'
      where "classify_tcp (fst st) (run_tcp_checks conn calls) = Inr dead'" by blast
    with g assms have "tcp_phase conn st = Inr dead'"
      unfolding tcp_phase_Inr_iff by blast
    with no show False by blast
  qed
  then obtain e' where "gather (concat (map snd (run_tcp_checks conn calls))) = Inl e'" ..
  then have "Inl e' \<in> set (concat (map snd (run_tcp_checks conn calls)))"
    by (rule gather_Inl_mem)
  then show "\<exists>d cs ip port e. (d, cs) \<in> set calls \<and> (ip, port) \<in> set cs
                  \<and> has_tcp_port_open conn ip port = Inl e"
    unfolding run_tcp_checks_results by metis
next
  assume "\<exists>d cs ip port e. (d, cs) \<in> set calls \<and> (ip, port) \<in> set cs
                  \<and> has_tcp_port_open conn ip port = Inl e"
  then obtain d cs ip port e where m: "(d, cs) \<in> set calls" "(ip, port) \<in> set cs"
    "has_tcp_port_open conn ip port = Inl e" by blast
  then have "Inl e \<in> set (concat (map snd (run_tcp_checks conn calls)))"
    unfolding run_tcp_checks_results by metis
  then obtain e' where "gather (concat (map snd (run_tcp_checks conn calls))) = Inl e'"
    using gather_mem_Inl by blast
  then obtain E where "asyncio_gather (concat (map snd (run_tcp_checks conn calls))) = Inl E"
    using asyncio_gather_Inl by blast
  with assms show "\<exists>e. tcp_phase conn st = Inl e"
    by (simp add: tcp_phase_def)
qed

lemma run_tcp_checks_keys: "map fst (run_tcp_checks conn calls) = map fst calls"
  by (induction calls) (auto simp: run_tcp_checks_def)

lemma run_tcp_checks_items:
  "(d, fs) \<in> set (run_tcp_checks conn calls)
   \<longleftrightarrow> (\<exists>cs. (d, cs) \<in> set calls \<and> fs = map (\<lambda>(ip, port). has_tcp_port_open conn ip port) cs)"
  by (induction calls) (auto simp: run_tcp_checks_def)

lemma tcp_dead_mem:
  "d \<in> tcp_dead futs
   \<longleftrightarrow> (\<exists>fs status. (d, fs) \<in> set futs \<and> gather fs = Inr status \<and> \<not> list_ex (\<lambda>b. b) status)"
proof -
  have c: "(case gather fs of Inl e \<Rightarrow> False | Inr status \<Rightarrow> \<not> list_ex (\<lambda>b. b) status)
           \<longleftrightarrow> (\<exists>status. gather fs = Inr status \<and> \<not> list_ex (\<lambda>b. b) status)" for fs
    by (cases "gather fs") simp_all
  have "d \<in> tcp_dead futs
        \<longleftrightarrow> (\<exists>fs. (d, fs) \<in> set futs
              \<and> (case gather fs of Inl e \<Rightarrow> False | Inr status \<Rightarrow> \<not> list_ex (\<lambda>b. b) status))"
    unfolding tcp_dead_def by force
  then show ?thesis unfolding c by blast
qed

lemma tcp_dead_keys: "tcp_dead (run_tcp_checks conn calls) \<subseteq> fst ` set calls"
proof
  fix d
  assume "d \<in> tcp_dead (run_tcp_checks conn calls)"
  then obtain fs where "(d, fs) \<in> set (run_tcp_checks conn calls)"
    unfolding tcp_dead_mem by blast
  then obtain cs where "(d, cs) \<in> set calls"
    unfolding run_tcp_checks_items by blast
  then show "d \<in> fst ` set calls" by (rule rev_image_eqI) simp
qed

lemma schedule_key_set: "schedule_tcp_checks tcp = Inr calls \<Longrightarrow> fst ` set calls = fst ` set tcp"
proof -
  assume "schedule_tcp_checks tcp = Inr calls"
  then have "map fst calls = map fst tcp" by (rule schedule_keys)
  then have "set (map fst calls) = set (map fst tcp)" by simp
  then show ?thesis by (simp only: set_map)
qed



lemma final_dead_subset:
  assumes "tcp_phase conn (classify_dns domains results) = Inr dead"
  shows "dead \<subseteq> set domains"
proof -
  from assms obtain calls where c: "schedule_tcp_checks (snd (classify_dns domains results)) = Inr calls"
    and d: "dead = fst (classify_dns domains results) \<union> tcp_dead (run_tcp_checks conn calls)"
    by (rule tcp_phase_Inr)
  have "fst (classify_dns domains results) \<subseteq> set domains"
    unfolding classify_dns_dead by (auto dest: set_zip_leftD)
  moreover have "fst ` set calls \<subseteq> set domains"
    unfolding schedule_key_set [OF c] classify_dns_keys by (auto dest: set_zip_leftD)
  ultimately show ?thesis
    using d tcp_dead_keys [of conn calls] by blast
qed

lemma candidates_have_address:
  "(d, ips) \<in> set (snd (classify_dns domains results)) \<Longrightarrow> list_ex truthy ips"
  by (simp add: classify_dns_items)

lemma schedule_after_dns: "\<exists>calls. schedule_tcp_checks (snd (classify_dns domains results)) = Inr calls"
  by (rule schedule_succeeds) (auto dest: candidates_have_address)



section \<open>The error policy of has_tcp_port_open\<close>

text \<open>
  Claim C3. \<open>has_tcp_port_open\<close> returns false exactly when the connection attempt ends
  in a \<open>ConnectionRefusedError\<close>, in a \<open>TimeoutError\<close> (the time-out of
  \<open>asyncio.wait_for\<close>, or one the kernel reports) or in another \<open>OSError\<close> whose
  \<open>errno\<close> is \<open>EHOSTUNREACH\<close>. Of the errors of the operating system, raised as Python
  builds them from the error number, these are \<open>ECONNREFUSED\<close>, \<open>ETIMEDOUT\<close> and
  \<open>EHOSTUNREACH\<close>, and every other number leaves the function as an \<open>OSError\<close>. Any
  exception that is not caught leaves the function as it is, and a run whose phase 2 holds
  such a probe ends with an exception instead of a set of dead domains.
\<close>

theorem has_tcp_port_open_policy:
  "(has_tcp_port_open conn ip port = Inr False
      \<longleftrightarrow> conn ip port = Raises ConnectionRefusedError \<or> conn ip port = Raises TimeoutError
          \<or> conn ip port = Raises (OSError (Some EHOSTUNREACH)))
   \<and> (\<forall>errno. conn ip port = Raises (os_error errno)
        \<longrightarrow> (has_tcp_port_open conn ip port = Inr False
               \<longleftrightarrow> errno = ECONNREFUSED \<or> errno = ETIMEDOUT \<or> errno = EHOSTUNREACH)
            \<and> (errno \<noteq> ECONNREFUSED \<and> errno \<noteq> ETIMEDOUT \<and> errno \<noteq> EHOSTUNREACH
                 \<longrightarrow> has_tcp_port_open conn ip port = Inl (OSError (Some errno))))
   \<and> (\<forall>e. conn ip port = Raises e \<and> e \<noteq> ConnectionRefusedError \<and> e \<noteq> TimeoutError
            \<and> e \<noteq> OSError (Some EHOSTUNREACH)
        \<longrightarrow> has_tcp_port_open conn ip port = Inl e
            \<and> (\<forall>(st :: string set \<times> (string \<times> string option list) list) calls d cs.
                   schedule_tcp_checks (snd st) = Inr calls \<and> (d, cs) \<in> set calls
                   \<and> (ip, port) \<in> set cs
                 \<longrightarrow> (\<exists>e'. tcp_phase conn st = Inl e')))"
proof (intro conjI allI impI)
  show "has_tcp_port_open conn ip port = Inr False
      \<longleftrightarrow> conn ip port = Raises ConnectionRefusedError \<or> conn ip port = Raises TimeoutError
          \<or> conn ip port = Raises (OSError (Some EHOSTUNREACH))"
    by (auto simp: has_tcp_port_open_def split: tcp_reply.splits exn.splits)
next
  fix errno
  assume "conn ip port = Raises (os_error errno)"
  then show "has_tcp_port_open conn ip port = Inr False
               \<longleftrightarrow> errno = ECONNREFUSED \<or> errno = ETIMEDOUT \<or> errno = EHOSTUNREACH"
    by (simp add: has_tcp_port_open_def os_error_def ECONNREFUSED_def ETIMEDOUT_def
        EHOSTUNREACH_def)
next
  fix errno
  assume "conn ip port = Raises (os_error errno)"
    and "errno \<noteq> ECONNREFUSED \<and> errno \<noteq> ETIMEDOUT \<and> errno \<noteq> EHOSTUNREACH"
  then show "has_tcp_port_open conn ip port = Inl (OSError (Some errno))"
    by (simp add: has_tcp_port_open_def os_error_def)
next
  fix e
  assume h: "conn ip port = Raises e \<and> e \<noteq> ConnectionRefusedError \<and> e \<noteq> TimeoutError
            \<and> e \<noteq> OSError (Some EHOSTUNREACH)"
  then show r: "has_tcp_port_open conn ip port = Inl e"
    by (auto simp: has_tcp_port_open_def split: exn.splits)
  fix st :: "string set \<times> (string \<times> string option list) list" and calls d cs
  assume "schedule_tcp_checks (snd st) = Inr calls \<and> (d, cs) \<in> set calls \<and> (ip, port) \<in> set cs"
  then have s: "schedule_tcp_checks (snd st) = Inr calls" and "(d, cs) \<in> set calls"
    and "(ip, port) \<in> set cs" by simp_all
  with r have "\<exists>d cs ip port e. (d, cs) \<in> set calls \<and> (ip, port) \<in> set cs
                  \<and> has_tcp_port_open conn ip port = Inl e" by blast
  then show "\<exists>e'. tcp_phase conn st = Inl e'"
    unfolding tcp_phase_Inl_iff [OF s] .
qed

theorem has_tcp_port_open_policy_witness:
  "has_tcp_port_open scenario_tcp ''203.0.113.5'' 80 = Inr False
   \<and> has_tcp_port_open (\<lambda>ip port. Raises (os_error ETIMEDOUT)) ''203.0.113.5'' 80 = Inr False
   \<and> has_tcp_port_open (\<lambda>ip port. Raises (os_error 101)) ''203.0.113.5'' 80
       = Inl (OSError (Some 101))
   \<and> has_tcp_port_open (tcp_connect scenario_fatal) ''203.0.113.5'' 80 = Inl (OSError (Some 101))
   \<and> (\<exists>e'. tcp_phase (tcp_connect scenario_fatal)
              (classify_dns scenario_domains scenario_results) = Inl e')"
proof -
  have a: "scenario_tcp ''203.0.113.5'' 80 = Raises ConnectionRefusedError"
    by (simp add: scenario_tcp_def)
  have 1: "has_tcp_port_open scenario_tcp ''203.0.113.5'' 80 = Inr False"
    using has_tcp_port_open_policy [of scenario_tcp "''203.0.113.5''" 80] a by simp
  have t: "has_tcp_port_open (\<lambda>ip port. Raises (os_error ETIMEDOUT)) ''203.0.113.5'' 80 = Inr False"
    using has_tcp_port_open_policy [of "\<lambda>ip port. Raises (os_error ETIMEDOUT)" "''203.0.113.5''" 80]
    by (elim conjE) (erule allE [of _ ETIMEDOUT], simp)
  have n: "(101::int) \<noteq> ECONNREFUSED \<and> 101 \<noteq> ETIMEDOUT \<and> 101 \<noteq> EHOSTUNREACH"
    by (simp add: ECONNREFUSED_def ETIMEDOUT_def EHOSTUNREACH_def)
  have u: "has_tcp_port_open (\<lambda>ip port. Raises (os_error 101)) ''203.0.113.5'' 80
       = Inl (OSError (Some 101))"
    using has_tcp_port_open_policy [of "\<lambda>ip port. Raises (os_error 101)" "''203.0.113.5''" 80] n
    by (elim conjE) (erule allE [of _ 101], simp)
  have b: "tcp_connect scenario_fatal ''203.0.113.5'' 80 = Raises (OSError (Some 101))
           \<and> OSError (Some 101) \<noteq> ConnectionRefusedError \<and> OSError (Some 101) \<noteq> TimeoutError
           \<and> OSError (Some 101) \<noteq> OSError (Some EHOSTUNREACH)"
    by (simp add: scenario_fatal_def EHOSTUNREACH_def)
  have c: "schedule_tcp_checks (snd (classify_dns scenario_domains scenario_results))
             = Inr [(''c.test'', [(''203.0.113.5'', 80), (''203.0.113.5'', 443)])]
           \<and> (''c.test'', [(''203.0.113.5'', 80::nat), (''203.0.113.5'', 443)])
               \<in> set [(''c.test'', [(''203.0.113.5'', 80::nat), (''203.0.113.5'', 443)])]
           \<and> (''203.0.113.5'', 80) \<in> set [(''203.0.113.5'', 80), (''203.0.113.5'', 443::nat)]"
    by code_simp
  from has_tcp_port_open_policy [of "tcp_connect scenario_fatal" "''203.0.113.5''" 80] b
  have 2: "has_tcp_port_open (tcp_connect scenario_fatal) ''203.0.113.5'' 80 = Inl (OSError (Some 101))"
    and 3: "\<forall>(st :: string set \<times> (string \<times> string option list) list) calls d cs.
              schedule_tcp_checks (snd st) = Inr calls \<and> (d, cs) \<in> set calls
                \<and> (''203.0.113.5'', 80) \<in> set cs
              \<longrightarrow> (\<exists>e'. tcp_phase (tcp_connect scenario_fatal) st = Inl e')"
    by blast+
  from 3 c have "\<exists>e'. tcp_phase (tcp_connect scenario_fatal)
              (classify_dns scenario_domains scenario_results) = Inl e'"
    by blast
  with 1 t u 2 show ?thesis by (intro conjI)
qed

section \<open>Phase 1\<close>

text \<open>
  Claim C1, as stated, fails when a domain is on two lines of the list file, since each
  line is resolved on its own and both results go into one set and one dict keyed by the
  domain. In the first run below every entry of the vector of the first line is resolved,
  yet \<open>x.test\<close> is in \<open>dead_domains\<close> and the file is rewritten without it. In the
  second run no entry of the vector of the first line is resolved, yet \<open>x.test\<close> is a
  key of \<open>tcp_check_domain_ips\<close> and so is probed in phase 2.
\<close>

theorem dns_classification_counterexample:
  "map rstrip repeated_file = [''x.test'', ''x.test'']
   \<and> map (\<lambda>(i, domain). dns_resolve_domain repeated_resolved i domain)
         (enumerate 0 (map rstrip repeated_file))
       = [[Some ''203.0.113.5'', Some ''203.0.113.5'', Some ''203.0.113.5'',
           Some ''203.0.113.5'', Some ''203.0.113.5''],
          [None, None, None, None, None]]
   \<and> dns_phase repeated_resolved (map rstrip repeated_file) = ({''x.test''}, [])
   \<and> check_domains repeated_resolved (map rstrip repeated_file) = Inr {''x.test''}
   \<and> main repeated_resolved repeated_file = ([], Inr 1)
   \<and> map (\<lambda>(i, domain). dns_resolve_domain repeated_mixed i domain)
         (enumerate 0 (map rstrip repeated_file))
       = [[None, None, None, None, None],
          [Some ''203.0.113.5'', None, None, None, None]]
   \<and> dns_phase repeated_mixed (map rstrip repeated_file)
       = ({''x.test''}, [(''x.test'', [Some ''203.0.113.5'', None, None, None, None])])"
  by code_simp

text \<open>
  Claim C1, amended. Take a domain of the input and the resolution vector of one of its
  lines, where every line that carries this domain falls into the same of the three cases
  as this one: the same answer to \<open>any(ips)\<close> and the same answer to \<open>all(ips)\<close> (as
  when the domain is on one line); the vector has an entry. An entry counts as resolved
  when it holds an address, which is Python's truth value of the entry. If no entry is
  resolved, the domain is in \<open>dead_domains\<close> after phase 1 and is no key of
  \<open>tcp_check_domain_ips\<close>. If every entry is resolved, the domain is in neither. The
  domain is a key of \<open>tcp_check_domain_ips\<close> exactly when it has a resolved and an
  unresolved entry. In a run that reaches its end, probes are created for the keys of
  \<open>tcp_check_domain_ips\<close> only, a domain without a resolved entry is in the final
  \<open>dead_domains\<close>, and a domain with all entries resolved is not.
\<close>

theorem dns_classification:
  assumes "(d, v) \<in> set (zip domains results)"
    and "\<forall>v'. (d, v') \<in> set (zip domains results) \<longrightarrow>
           list_ex truthy v' = list_ex truthy v \<and> list_all truthy v' = list_all truthy v"
    and "v \<noteq> []"
  shows "((\<forall>e\<in>set v. \<not> truthy e) \<longrightarrow>
            d \<in> fst (classify_dns domains results)
            \<and> d \<notin> fst ` set (snd (classify_dns domains results)))
       \<and> ((\<forall>e\<in>set v. truthy e) \<longrightarrow>
            d \<notin> fst (classify_dns domains results)
            \<and> d \<notin> fst ` set (snd (classify_dns domains results)))
       \<and> (d \<in> fst ` set (snd (classify_dns domains results))
            \<longleftrightarrow> (\<exists>e\<in>set v. truthy e) \<and> (\<exists>e\<in>set v. \<not> truthy e))
       \<and> (\<forall>conn dead calls.
            tcp_phase conn (classify_dns domains results) = Inr dead
            \<and> schedule_tcp_checks (snd (classify_dns domains results)) = Inr calls
            \<longrightarrow> (d \<in> fst ` set calls \<longleftrightarrow> d \<in> fst ` set (snd (classify_dns domains results)))
               \<and> ((\<forall>e\<in>set v. \<not> truthy e) \<longrightarrow> d \<in> dead)
               \<and> ((\<forall>e\<in>set v. truthy e) \<longrightarrow> d \<notin> dead))"
proof -
  let ?st = "classify_dns domains results"
  have ex: "list_ex truthy v \<longleftrightarrow> (\<exists>e\<in>set v. truthy e)" by (rule list_ex_iff)
  have al: "list_all truthy v \<longleftrightarrow> (\<forall>e\<in>set v. truthy e)" by (rule list_all_iff)
  have d1: "(\<exists>v'. (d, v') \<in> set (zip domains results) \<and> \<not> list_ex truthy v')
            \<longleftrightarrow> \<not> list_ex truthy v"
    using assms(1,2) by blast
  have d2: "(\<exists>v'. (d, v') \<in> set (zip domains results) \<and> list_ex truthy v' \<and> \<not> list_all truthy v')
            \<longleftrightarrow> list_ex truthy v \<and> \<not> list_all truthy v"
    using assms(1,2) by blast
  have dead1: "d \<in> fst ?st \<longleftrightarrow> \<not> (\<exists>e\<in>set v. truthy e)"
    unfolding classify_dns_dead mem_Collect_eq d1 ex ..
  have keys: "d \<in> fst ` set (snd ?st) \<longleftrightarrow> (\<exists>e\<in>set v. truthy e) \<and> \<not> (\<forall>e\<in>set v. truthy e)"
    unfolding classify_dns_keys mem_Collect_eq d2 ex al ..
  obtain e0 where e0: "e0 \<in> set v" using assms(3) by (cases v) auto
  have a: "(\<forall>e\<in>set v. \<not> truthy e) \<longrightarrow> d \<in> fst ?st \<and> d \<notin> fst ` set (snd ?st)"
    unfolding dead1 keys by blast
  have b: "(\<forall>e\<in>set v. truthy e) \<longrightarrow> d \<notin> fst ?st \<and> d \<notin> fst ` set (snd ?st)"
    unfolding dead1 keys using e0 by blast
  have c: "d \<in> fst ` set (snd ?st) \<longleftrightarrow> (\<exists>e\<in>set v. truthy e) \<and> (\<exists>e\<in>set v. \<not> truthy e)"
    unfolding keys by blast
  have d: "(d \<in> fst ` set calls \<longleftrightarrow> d \<in> fst ` set (snd ?st))
               \<and> ((\<forall>e\<in>set v. \<not> truthy e) \<longrightarrow> d \<in> dead)
               \<and> ((\<forall>e\<in>set v. truthy e) \<longrightarrow> d \<notin> dead)"
    if run: "tcp_phase conn ?st = Inr dead" and sch: "schedule_tcp_checks (snd ?st) = Inr calls"
    for conn dead calls
  proof -
    from run obtain calls' where "schedule_tcp_checks (snd ?st) = Inr calls'"
      and "dead = fst ?st \<union> tcp_dead (run_tcp_checks conn calls')"
      by (rule tcp_phase_Inr)
    with sch have dd: "dead = fst ?st \<union> tcp_dead (run_tcp_checks conn calls)" by simp
    have k: "fst ` set calls = fst ` set (snd ?st)"
      using sch by (rule schedule_key_set)
    have sub: "tcp_dead (run_tcp_checks conn calls) \<subseteq> fst ` set (snd ?st)"
      using tcp_dead_keys [of conn calls] unfolding k .
    have x: "(\<forall>e\<in>set v. truthy e) \<longrightarrow> d \<notin> dead"
    proof
      assume "\<forall>e\<in>set v. truthy e"
      with b have "d \<notin> fst ?st" "d \<notin> fst ` set (snd ?st)" by simp_all
      with sub show "d \<notin> dead" unfolding dd by blast
    qed
    have y: "(\<forall>e\<in>set v. \<not> truthy e) \<longrightarrow> d \<in> dead"
      using a unfolding dd by simp
    show ?thesis
      unfolding k using x y by simp
  qed
  show ?thesis
  proof (intro conjI allI)
    show "(\<forall>e\<in>set v. \<not> truthy e) \<longrightarrow> d \<in> fst ?st \<and> d \<notin> fst ` set (snd ?st)" by (rule a)
    show "(\<forall>e\<in>set v. truthy e) \<longrightarrow> d \<notin> fst ?st \<and> d \<notin> fst ` set (snd ?st)" by (rule b)
    show "d \<in> fst ` set (snd ?st) \<longleftrightarrow> (\<exists>e\<in>set v. truthy e) \<and> (\<exists>e\<in>set v. \<not> truthy e)" by (rule c)
    fix conn dead calls
    show "tcp_phase conn ?st = Inr dead \<and> schedule_tcp_checks (snd ?st) = Inr calls
            \<longrightarrow> (d \<in> fst ` set calls \<longleftrightarrow> d \<in> fst ` set (snd ?st))
               \<and> ((\<forall>e\<in>set v. \<not> truthy e) \<longrightarrow> d \<in> dead)
               \<and> ((\<forall>e\<in>set v. truthy e) \<longrightarrow> d \<notin> dead)"
      using d [of conn dead calls] by (intro impI) (elim conjE)
  qed
qed

theorem dns_classification_witness:
  "''b.test'' \<in> fst (classify_dns scenario_domains scenario_results)
   \<and> ''b.test'' \<notin> fst ` set (snd (classify_dns scenario_domains scenario_results))
   \<and> ''a.test'' \<notin> fst (classify_dns scenario_domains scenario_results)
   \<and> ''a.test'' \<notin> fst ` set (snd (classify_dns scenario_domains scenario_results))
   \<and> ''c.test'' \<in> fst ` set (snd (classify_dns scenario_domains scenario_results))
   \<and> ''c.test'' \<in> fst ` set (snd (classify_dns [''c.test'', ''c.test'']
          [[Some ''203.0.113.5'', None, Some ''203.0.113.5'', None, None],
           [None, None, Some ''203.0.113.5'', None, Some ''203.0.113.5'']]))"
proof -
  let ?a = "[Some ''198.51.100.7'', Some ''198.51.100.7'', Some ''198.51.100.7'',
       Some ''198.51.100.7'', Some ''198.51.100.7'']"
  let ?b = "[None, None, None, None, None] :: string option list"
  let ?c = "[Some ''203.0.113.5'', None, Some ''203.0.113.5'', None, None]"
  let ?c' = "[None, None, Some ''203.0.113.5'', None, Some ''203.0.113.5'']"
  have a: "(''a.test'', ?a) \<in> set (zip scenario_domains scenario_results)"
      "\<forall>v'. (''a.test'', v') \<in> set (zip scenario_domains scenario_results) \<longrightarrow>
         list_ex truthy v' = list_ex truthy ?a \<and> list_all truthy v' = list_all truthy ?a"
      "?a \<noteq> []" "\<forall>e\<in>set ?a. truthy e"
    by (simp_all add: scenario_domains_def scenario_results_def)
  have b: "(''b.test'', ?b) \<in> set (zip scenario_domains scenario_results)"
      "\<forall>v'. (''b.test'', v') \<in> set (zip scenario_domains scenario_results) \<longrightarrow>
         list_ex truthy v' = list_ex truthy ?b \<and> list_all truthy v' = list_all truthy ?b"
      "?b \<noteq> []" "\<forall>e\<in>set ?b. \<not> truthy e"
    by (simp_all add: scenario_domains_def scenario_results_def)
  have c: "(''c.test'', ?c) \<in> set (zip scenario_domains scenario_results)"
      "\<forall>v'. (''c.test'', v') \<in> set (zip scenario_domains scenario_results) \<longrightarrow>
         list_ex truthy v' = list_ex truthy ?c \<and> list_all truthy v' = list_all truthy ?c"
      "?c \<noteq> []" "(\<exists>e\<in>set ?c. truthy e) \<and> (\<exists>e\<in>set ?c. \<not> truthy e)"
    by (simp_all add: scenario_domains_def scenario_results_def)
  have r: "(''c.test'', ?c) \<in> set (zip [''c.test'', ''c.test''] [?c, ?c'])"
      "\<forall>v'. (''c.test'', v') \<in> set (zip [''c.test'', ''c.test''] [?c, ?c']) \<longrightarrow>
         list_ex truthy v' = list_ex truthy ?c \<and> list_all truthy v' = list_all truthy ?c"
    by auto
  from dns_classification [OF a(1,2,3)] a(4)
  have 1: "''a.test'' \<notin> fst (classify_dns scenario_domains scenario_results)
   \<and> ''a.test'' \<notin> fst ` set (snd (classify_dns scenario_domains scenario_results))"
    by blast
  from dns_classification [OF b(1,2,3)] b(4)
  have 2: "''b.test'' \<in> fst (classify_dns scenario_domains scenario_results)
   \<and> ''b.test'' \<notin> fst ` set (snd (classify_dns scenario_domains scenario_results))"
    by blast
  from dns_classification [OF c(1,2,3)] c(4)
  have 3: "''c.test'' \<in> fst ` set (snd (classify_dns scenario_domains scenario_results))"
    by blast
  from dns_classification [OF r c(3)] c(4)
  have 4: "''c.test'' \<in> fst ` set (snd (classify_dns [''c.test'', ''c.test''] [?c, ?c']))"
    by blast
  from 1 2 3 4 show ?thesis by (intro conjI) simp_all
qed

section \<open>Phase 2\<close>




section \<open>Choosing the address to probe\<close>

text \<open>
  Claim C9. Every item of \<open>tcp_check_domain_ips\<close> that phase 1 leaves has a resolved
  entry in its vector, so \<open>next(filter(None, ips))\<close> returns an address for it and does
  not raise \<open>StopIteration\<close>; the loop that creates the probes runs to its end.
\<close>

theorem candidate_address_selection:
  "(\<forall>(d, ips)\<in>set (snd (classify_dns domains results)).
       list_ex truthy ips \<and> (\<exists>ip. next_filter ips = Inr ip))
   \<and> (\<exists>calls. schedule_tcp_checks (snd (classify_dns domains results)) = Inr calls)"
proof (intro conjI ballI)
  fix p
  assume p: "p \<in> set (snd (classify_dns domains results))"
  obtain d ips where dp: "p = (d, ips)" by (cases p)
  from p have "list_ex truthy ips" unfolding dp by (rule candidates_have_address)
  then show "case p of (d, ips) \<Rightarrow> list_ex truthy ips \<and> (\<exists>ip. next_filter ips = Inr ip)"
    unfolding dp using next_filter_any [of ips] by simp
next
  show "\<exists>calls. schedule_tcp_checks (snd (classify_dns domains results)) = Inr calls"
    by (rule schedule_after_dns)
qed

theorem candidate_address_selection_witness:
  "(''c.test'', [Some ''203.0.113.5'', None, Some ''203.0.113.5'', None, None])
      \<in> set (snd (classify_dns scenario_domains scenario_results))
   \<and> list_ex truthy [Some ''203.0.113.5'', None, Some ''203.0.113.5'', None, None]
   \<and> (\<exists>ip. next_filter [Some ''203.0.113.5'', None, Some ''203.0.113.5'', None, None] = Inr ip)"
proof -
  have m: "(''c.test'', [Some ''203.0.113.5'', None, Some ''203.0.113.5'', None, None])
      \<in> set (snd (classify_dns scenario_domains scenario_results))"
    by code_simp
  from candidate_address_selection [of scenario_domains scenario_results]
  have "\<forall>(d, ips)\<in>set (snd (classify_dns scenario_domains scenario_results)).
       list_ex truthy ips \<and> (\<exists>ip. next_filter ips = Inr ip)" ..
  from bspec [OF this m] m show ?thesis by simp
qed


section \<open>The three classes\<close>





section \<open>Exceptions and the list file\<close>

lemma main_Inl:
  "check_domains w (map rstrip list_file) = Inl e \<Longrightarrow> main w list_file = (list_file, Inl e)"
  by (simp add: main_def)

lemma main_Inr:
  "check_domains w (map rstrip list_file) = Inr dead \<Longrightarrow>
     main w list_file
     = (map (\<lambda>domain. domain @ [CHR 0x0A]) (filter (\<lambda>domain. domain \<notin> dead) (map rstrip list_file)),
        Inr (card dead))"
  by (simp add: main_def)

lemma main_raises_iff:
  "(\<exists>e. snd (main w list_file) = Inl e) \<longleftrightarrow> (\<exists>e. check_domains w (map rstrip list_file) = Inl e)"
  by (cases "check_domains w (map rstrip list_file)") (simp_all add: main_Inl main_Inr)


text \<open>
  Claim C4. A run that ends with an exception leaves the list file as it was. The loop that
  creates the probes always runs to its end; a run ends with an exception, the file
  untouched, exactly when one of the probes it created raises, and it reaches the rewriting
  of the file and the printed count exactly when every probe returned.
\<close>

theorem fail_fast:
  "(\<forall>e. snd (main w list_file) = Inl e \<longrightarrow> fst (main w list_file) = list_file)
   \<and> (\<exists>calls. schedule_tcp_checks (snd (dns_phase w (map rstrip list_file))) = Inr calls)
   \<and> (\<forall>calls. schedule_tcp_checks (snd (dns_phase w (map rstrip list_file))) = Inr calls \<longrightarrow>
         ((\<exists>d cs ip port e. (d, cs) \<in> set calls \<and> (ip, port) \<in> set cs
              \<and> has_tcp_port_open (tcp_connect w) ip port = Inl e)
          \<longleftrightarrow> (\<exists>e. main w list_file = (list_file, Inl e)))
         \<and> ((\<exists>n. snd (main w list_file) = Inr n)
          \<longleftrightarrow> (\<forall>(d, cs)\<in>set calls. \<forall>(ip, port)\<in>set cs.
                 \<exists>b. has_tcp_port_open (tcp_connect w) ip port = Inr b)))"
proof (intro conjI allI impI)
  fix e
  assume "snd (main w list_file) = Inl e"
  then show "fst (main w list_file) = list_file"
    by (cases "check_domains w (map rstrip list_file)") (simp_all add: main_Inl main_Inr)
next
  show "\<exists>calls. schedule_tcp_checks (snd (dns_phase w (map rstrip list_file))) = Inr calls"
    unfolding dns_phase_def by (rule schedule_after_dns)
next
  fix calls
  assume sch: "schedule_tcp_checks (snd (dns_phase w (map rstrip list_file))) = Inr calls"
  let ?raise = "\<exists>d cs ip port e. (d, cs) \<in> set calls \<and> (ip, port) \<in> set cs
              \<and> has_tcp_port_open (tcp_connect w) ip port = Inl e"
  have r: "(\<exists>e. check_domains w (map rstrip list_file) = Inl e) \<longleftrightarrow> ?raise"
    unfolding check_domains_def by (rule tcp_phase_Inl_iff [OF sch])
  have m: "(\<exists>e. main w list_file = (list_file, Inl e))
           \<longleftrightarrow> (\<exists>e. check_domains w (map rstrip list_file) = Inl e)"
    by (cases "check_domains w (map rstrip list_file)") (simp_all add: main_Inl main_Inr)
  show "?raise \<longleftrightarrow> (\<exists>e. main w list_file = (list_file, Inl e))"
    unfolding m r ..
  have ok: "(\<exists>n. snd (main w list_file) = Inr n) \<longleftrightarrow> \<not> ?raise"
    unfolding r [symmetric]
    by (cases "check_domains w (map rstrip list_file)") (simp_all add: main_Inl main_Inr)
  have tot: "(\<exists>e. has_tcp_port_open (tcp_connect w) ip port = Inl e)
             \<longleftrightarrow> \<not> (\<exists>b. has_tcp_port_open (tcp_connect w) ip port = Inr b)" for ip port
    by (cases "has_tcp_port_open (tcp_connect w) ip port") simp_all
  have "\<not> ?raise \<longleftrightarrow> (\<forall>(d, cs)\<in>set calls. \<forall>(ip, port)\<in>set cs.
                 \<exists>b. has_tcp_port_open (tcp_connect w) ip port = Inr b)"
  proof
    assume n: "\<not> ?raise"
    show "\<forall>(d, cs)\<in>set calls. \<forall>(ip, port)\<in>set cs.
                 \<exists>b. has_tcp_port_open (tcp_connect w) ip port = Inr b"
    proof (intro ballI, clarify)
      fix d cs ip port
      assume "(d, cs) \<in> set calls" "(ip, port) \<in> set cs"
      with n have "\<not> (\<exists>e. has_tcp_port_open (tcp_connect w) ip port = Inl e)" by blast
      then show "\<exists>b. has_tcp_port_open (tcp_connect w) ip port = Inr b"
        unfolding tot by simp
    qed
  next
    assume a: "\<forall>(d, cs)\<in>set calls. \<forall>(ip, port)\<in>set cs.
                 \<exists>b. has_tcp_port_open (tcp_connect w) ip port = Inr b"
    show "\<not> ?raise"
    proof
      assume ?raise
      then obtain d cs ip port e where x: "(d, cs) \<in> set calls" "(ip, port) \<in> set cs"
        "has_tcp_port_open (tcp_connect w) ip port = Inl e" by blast
      from bspec [OF a x(1)] have "\<forall>(ip, port)\<in>set cs.
                 \<exists>b. has_tcp_port_open (tcp_connect w) ip port = Inr b" by simp
      from bspec [OF this x(2)] x(3) show False by simp
    qed
  qed
  with ok show "(\<exists>n. snd (main w list_file) = Inr n)
          \<longleftrightarrow> (\<forall>(d, cs)\<in>set calls. \<forall>(ip, port)\<in>set cs.
                 \<exists>b. has_tcp_port_open (tcp_connect w) ip port = Inr b)"
    by simp
qed


theorem fail_fast_witness:
  "schedule_tcp_checks (snd (dns_phase scenario_fatal (map rstrip scenario_file)))
     = Inr [(''c.test'', [(''203.0.113.5'', 80), (''203.0.113.5'', 443)])]
   \<and> has_tcp_port_open (tcp_connect scenario_fatal) ''203.0.113.5'' 80 = Inl (OSError (Some 101))
   \<and> (\<exists>e. main scenario_fatal scenario_file = (scenario_file, Inl e))
   \<and> fst (main scenario_fatal scenario_file) = scenario_file
   \<and> (\<exists>n. snd (main scenario scenario_file) = Inr n)"
proof -
  let ?calls = "[(''c.test'', [(''203.0.113.5'', 80::nat), (''203.0.113.5'', 443)])]"
  have s: "schedule_tcp_checks (snd (dns_phase scenario_fatal (map rstrip scenario_file))) = Inr ?calls"
    by code_simp
  have p: "has_tcp_port_open (tcp_connect scenario_fatal) ''203.0.113.5'' 80 = Inl (OSError (Some 101))"
    by code_simp
  have "\<exists>d cs ip port e. (d, cs) \<in> set ?calls \<and> (ip, port) \<in> set cs
              \<and> has_tcp_port_open (tcp_connect scenario_fatal) ip port = Inl e"
    using p by (intro exI [of _ "''c.test''"] exI [of _ "[(''203.0.113.5'', 80::nat), (''203.0.113.5'', 443)]"]
        exI [of _ "''203.0.113.5''"] exI [of _ "80::nat"] exI [of _ "OSError (Some 101)"]) simp
  with fail_fast [of scenario_fatal scenario_file] s
  have a: "\<exists>e. main scenario_fatal scenario_file = (scenario_file, Inl e)" by blast
  then have "\<exists>e. snd (main scenario_fatal scenario_file) = Inl e" by auto
  with fail_fast [of scenario_fatal scenario_file]
  have b: "fst (main scenario_fatal scenario_file) = scenario_file" by blast
  have s': "schedule_tcp_checks (snd (dns_phase scenario (map rstrip scenario_file))) = Inr ?calls"
    by code_simp
  have q: "has_tcp_port_open (tcp_connect scenario) ''203.0.113.5'' 80 = Inr False"
    "has_tcp_port_open (tcp_connect scenario) ''203.0.113.5'' 443 = Inr True"
    by code_simp+
  have "\<forall>(d, cs)\<in>set ?calls. \<forall>(ip, port)\<in>set cs.
                 \<exists>b. has_tcp_port_open (tcp_connect scenario) ip port = Inr b"
    using q by auto
  with fail_fast [of scenario scenario_file] s'
  have c: "\<exists>n. snd (main scenario scenario_file) = Inr n" by blast
  from s p a b c show ?thesis by (intro conjI)
qed

section \<open>Repeated lines\<close>

lemma check_domains_subset:
  "check_domains w domains = Inr dead \<Longrightarrow> dead \<subseteq> set domains"
  unfolding check_domains_def dns_phase_def by (rule final_dead_subset)


text \<open>
  Claim C10. In a run that reaches its end, the file is rewritten with the lines whose
  domain is not in \<open>dead_domains\<close>, so no line of a dead domain is left, however often
  the domain was in the input. The number printed is the size of \<open>dead_domains\<close>, a set
  of domains of the input: the number of distinct dead domains. The number of lines removed
  is the number of lines that carry a dead domain, which is at least the number printed and
  is larger when a dead domain is on more than one line.
\<close>

theorem duplicate_lines:
  assumes "check_domains w (map rstrip list_file) = Inr dead"
  shows "fst (main w list_file)
           = map (\<lambda>line. rstrip line @ [CHR 0x0A]) (filter (\<lambda>line. rstrip line \<notin> dead) list_file)
       \<and> (\<forall>line\<in>set list_file.
             rstrip line \<in> dead \<longrightarrow> rstrip line @ [CHR 0x0A] \<notin> set (fst (main w list_file)))
       \<and> snd (main w list_file) = Inr (card dead)
       \<and> dead \<subseteq> rstrip ` set list_file
       \<and> length list_file - length (fst (main w list_file))
           = length (filter (\<lambda>line. rstrip line \<in> dead) list_file)
       \<and> card dead \<le> length (filter (\<lambda>line. rstrip line \<in> dead) list_file)"
proof -
  let ?gone = "filter (\<lambda>line. rstrip line \<in> dead) list_file"
  let ?kept = "filter (\<lambda>line. rstrip line \<notin> dead) list_file"
  have m: "main w list_file
     = (map (\<lambda>domain. domain @ [CHR 0x0A]) (filter (\<lambda>domain. domain \<notin> dead) (map rstrip list_file)),
        Inr (card dead))"
    using assms by (rule main_Inr)
  have out: "fst (main w list_file) = map (\<lambda>line. rstrip line @ [CHR 0x0A]) ?kept"
    unfolding m by (simp add: filter_map comp_def)
  have cnt: "snd (main w list_file) = Inr (card dead)"
    unfolding m by simp
  have sub: "dead \<subseteq> rstrip ` set list_file"
    using check_domains_subset [OF assms] by simp
  have none: "\<forall>line\<in>set list_file.
             rstrip line \<in> dead \<longrightarrow> rstrip line @ [CHR 0x0A] \<notin> set (fst (main w list_file))"
    unfolding out by auto
  have "length ?gone + length ?kept = length list_file"
    by (rule sum_length_filter_compl)
  then have len: "length list_file - length (fst (main w list_file)) = length ?gone"
    unfolding out by simp
  have "dead \<subseteq> rstrip ` set ?gone"
    using sub by auto
  then have "card dead \<le> card (rstrip ` set ?gone)"
    by (intro card_mono) simp_all
  also have "\<dots> \<le> card (set ?gone)" by (intro card_image_le) simp
  also have "\<dots> \<le> length ?gone" by (rule card_length)
  finally have le: "card dead \<le> length ?gone" .
  from out none cnt sub len le show ?thesis by (intro conjI)
qed

theorem duplicate_lines_witness:
  "check_domains scenario (map rstrip scenario_file_twice) = Inr {''b.test''}
   \<and> fst (main scenario scenario_file_twice) = [''a.test'' @ [CHR 0x0A], ''c.test'' @ [CHR 0x0A]]
   \<and> snd (main scenario scenario_file_twice) = Inr 1
   \<and> length scenario_file_twice - length (fst (main scenario scenario_file_twice)) = 2"
proof -
  have 1: "check_domains scenario (map rstrip scenario_file_twice) = Inr {''b.test''}"
    by code_simp
  have 2: "map (\<lambda>line. rstrip line @ [CHR 0x0A])
             (filter (\<lambda>line. rstrip line \<notin> {''b.test''}) scenario_file_twice)
           = [''a.test'' @ [CHR 0x0A], ''c.test'' @ [CHR 0x0A]]"
    by code_simp
  have 3: "length (filter (\<lambda>line. rstrip line \<in> {''b.test''}) scenario_file_twice) = 2"
    by code_simp
  have 4: "card {''b.test''} = (1::nat)" by simp
  note d = duplicate_lines [OF 1]
  from d have a: "fst (main scenario scenario_file_twice)
           = map (\<lambda>line. rstrip line @ [CHR 0x0A])
               (filter (\<lambda>line. rstrip line \<notin> {''b.test''}) scenario_file_twice)"
    by (rule conjunct1)
  from d have c: "snd (main scenario scenario_file_twice) = Inr (card {''b.test''})"
    by blast
  from d have e: "length scenario_file_twice - length (fst (main scenario scenario_file_twice))
           = length (filter (\<lambda>line. rstrip line \<in> {''b.test''}) scenario_file_twice)"
    by blast
  from 1 a [unfolded 2] c [unfolded 4] e [unfolded 3] show ?thesis
    by (intro conjI)
qed

section \<open>Two runs on one network\<close>


















end
